theory Spec2Isabelle
  imports Main
begin

section \<open>Configuration model of \<^verbatim>\<open>scripts/codex_runner.py\<close>\<close>

text \<open>
  The parsed configuration is a dictionary with the two entries \<^verbatim>\<open>test_tiers\<close> and
  \<^verbatim>\<open>combinations\<close>. A tier definition is either \<^verbatim>\<open>null\<close> or an object; the object is
  modelled by the four keys the program reads, each of which may be absent, and by the
  list of the other keys it holds (they only matter for the truth value of the object:
  Python's \<^verbatim>\<open>not meta\<close> holds for \<^verbatim>\<open>None\<close> and for the empty dictionary).
\<close>

record discovery_cfg =
  paths :: "string list option"
  markers_any :: "string list option"

record tier_cfg =
  depends_on :: "string list option"
  discovery :: "discovery_cfg option"
  default_enabled :: "bool option"
  critical :: "bool option"
  other_keys :: "string list"

datatype tier_value = TNull | TDict tier_cfg

type_synonym tiers = "string \<rightharpoonup> tier_value"

record codex_cfg =
  test_tiers :: tiers
  combinations :: "string \<rightharpoonup> string list option"

text \<open>
  Every way the process can end abnormally. \<open>SysExit\<close> is \<^verbatim>\<open>sys.exit(1)\<close> after the
  message named by its argument; the others are uncaught Python exceptions. The
  interpreter leaves with status 1 in each case.
\<close>

datatype message = UnknownCombination string | TierNotDefined string

datatype error =
    SysExit message
  | RecursionError
  | KeyError string
  | AttributeError
  | OSError

text \<open>The empty dictionary \<^verbatim>\<open>{}\<close>: no key at all.\<close>

definition dict_empty :: "tier_cfg \<Rightarrow> bool" where
  "dict_empty c \<longleftrightarrow>
     depends_on c = None \<and> discovery c = None \<and> default_enabled c = None \<and>
     critical c = None \<and> other_keys c = []"

text \<open>\<^verbatim>\<open>not meta\<close> for \<^verbatim>\<open>meta = test_tiers.get(tier)\<close>.\<close>

fun not_meta :: "tier_value option \<Rightarrow> bool" where
  "not_meta None = True"
| "not_meta (Some TNull) = True"
| "not_meta (Some (TDict c)) = dict_empty c"

text \<open>\<^verbatim>\<open>meta.get("depends_on", [])\<close>.\<close>

definition get_depends_on :: "tier_cfg \<Rightarrow> string list" where
  "get_depends_on c = (case depends_on c of None \<Rightarrow> [] | Some ds \<Rightarrow> ds)"

section \<open>Dependency expansion\<close>

text \<open>
  \<^verbatim>\<open>add_tier\<close> is a closure over the list \<^verbatim>\<open>ordered\<close>, which it mutates; the model
  passes the list in and returns it. The recursion of the source is not bounded by
  its arguments, so the model carries the number of stack frames that are left
  (Python's recursion limit): a call that needs a frame when none is left raises
  \<open>RecursionError\<close>. \<open>add_deps\<close> is the loop \<^verbatim>\<open>for dep in ...: add_tier(dep)\<close>, which
  runs inside the frame of its caller.
\<close>

fun add_tier :: "nat \<Rightarrow> tiers \<Rightarrow> string \<Rightarrow> string list \<Rightarrow> error + string list"
  and add_deps :: "nat \<Rightarrow> tiers \<Rightarrow> string list \<Rightarrow> string list \<Rightarrow> error + string list"
where
  "add_tier 0 tt tier ordered = Inl RecursionError"
| "add_tier (Suc n) tt tier ordered =
     (if tier \<in> set ordered then Inr ordered
      else if not_meta (tt tier) then Inl (SysExit (TierNotDefined tier))
      else (case tt tier of
              Some (TDict meta) \<Rightarrow>
                (case add_deps n tt (get_depends_on meta) ordered of
                   Inl e \<Rightarrow> Inl e
                 | Inr ordered' \<Rightarrow> Inr (ordered' @ [tier]))
            | _ \<Rightarrow> Inl (SysExit (TierNotDefined tier))))"
| "add_deps n tt [] ordered = Inr ordered"
| "add_deps n tt (dep # deps) ordered =
     (case add_tier n tt dep ordered of
        Inl e \<Rightarrow> Inl e
      | Inr ordered' \<Rightarrow> add_deps n tt deps ordered')"

text \<open>
  \<^verbatim>\<open>expand_dependencies(cfg, tiers)\<close>: the top-level loop calls \<^verbatim>\<open>add_tier\<close> with the
  frames that are left at that point.
\<close>

definition expand_dependencies :: "nat \<Rightarrow> tiers \<Rightarrow> string list \<Rightarrow> error + string list" where
  "expand_dependencies n tt requested = add_deps n tt requested []"

section \<open>Tier execution\<close>

text \<open>
  What the operating system answers to \<^verbatim>\<open>subprocess.run(cmd, check=False, env=env)\<close>:
  the child ran and left with a return code, the user interrupted it
  (\<^verbatim>\<open>KeyboardInterrupt\<close>, which \<^verbatim>\<open>run_tier\<close> catches), or the child could not be started
  (\<^verbatim>\<open>OSError\<close>, which nothing catches).
\<close>

datatype outcome = Exited int | Interrupted | CannotLaunch

text \<open>
  The outside world is a function from the invocations made so far and the command to
  the outcome of running that command now.
\<close>

type_synonym env = "(string list \<times> outcome) list \<Rightarrow> string list \<Rightarrow> outcome"

text \<open>
  What happened to one tier of the plan: it was skipped, its command was invoked, or an
  uncaught exception ended the run before any invocation for it.
\<close>

datatype tier_result = Skip | Invoked "string list" outcome | Aborted error

record exec_state =
  overall_ok :: bool
  trace :: "(string \<times> tier_result) list"

text \<open>How the loop of \<^verbatim>\<open>main\<close> ended: it ran off the plan, it hit \<^verbatim>\<open>break\<close>, or an
  exception escaped.\<close>

datatype status = Completed | Stopped | Crashed error

definition sys_executable :: string where
  "sys_executable = ''python''"

fun join :: "string \<Rightarrow> string list \<Rightarrow> string" where
  "join sep [] = []"
| "join sep [x] = x"
| "join sep (x # y # ys) = x @ sep @ join sep (y # ys)"

definition build_pytest_cmd :: "string \<Rightarrow> tier_cfg \<Rightarrow> error + string list" where
  "build_pytest_cmd tier_name tier_cfg =
     (case discovery tier_cfg of
        None \<Rightarrow> Inl (KeyError ''discovery'')
      | Some d \<Rightarrow>
          (let ps = (case paths d of None \<Rightarrow> [''tests''] | Some p \<Rightarrow> p);
               ms = (case markers_any d of None \<Rightarrow> [] | Some m \<Rightarrow> m);
               cmd = [sys_executable, ''-m'', ''pytest''] @ ps
           in if ms \<noteq> [] then Inr (cmd @ [''-m'', join '' or '' ms]) else Inr cmd))"

text \<open>
  \<^verbatim>\<open>run_tier\<close> returns what happened together with the value or exception of the
  Python function: \<^verbatim>\<open>success = (result.returncode == 0)\<close>, \<open>False\<close> on an interrupt.
\<close>

definition run_tier ::
  "string \<Rightarrow> tier_cfg \<Rightarrow> env \<Rightarrow> (string list \<times> outcome) list \<Rightarrow> tier_result \<times> (error + bool)"
where
  "run_tier tier_name tier_cfg world h =
     (case build_pytest_cmd tier_name tier_cfg of
        Inl e \<Rightarrow> (Aborted e, Inl e)
      | Inr cmd \<Rightarrow>
          (case world h cmd of
             Exited rc \<Rightarrow> (Invoked cmd (Exited rc), Inr (rc = 0))
           | Interrupted \<Rightarrow> (Invoked cmd Interrupted, Inr False)
           | CannotLaunch \<Rightarrow> (Invoked cmd CannotLaunch, Inl OSError)))"

fun history :: "(string \<times> tier_result) list \<Rightarrow> (string list \<times> outcome) list" where
  "history [] = []"
| "history ((name, Invoked cmd oc) # es) = (cmd, oc) # history es"
| "history (e # es) = history es"

definition record_result :: "exec_state \<Rightarrow> string \<Rightarrow> tier_result \<Rightarrow> exec_state" where
  "record_result st name r = st\<lparr>trace := trace st @ [(name, r)]\<rparr>"

text \<open>\<^verbatim>\<open>tier_cfg.get("default_enabled", True)\<close> and \<^verbatim>\<open>tier_cfg.get("critical", False)\<close>.\<close>

definition get_default_enabled :: "tier_cfg \<Rightarrow> bool" where
  "get_default_enabled c = (case default_enabled c of None \<Rightarrow> True | Some b \<Rightarrow> b)"

definition get_critical :: "tier_cfg \<Rightarrow> bool" where
  "get_critical c = (case critical c of None \<Rightarrow> False | Some b \<Rightarrow> b)"

text \<open>The unguarded lookup \<^verbatim>\<open>test_tiers[tier_name]\<close>: \<open>KeyError\<close> on a missing key.\<close>

definition lookup_tier :: "tiers \<Rightarrow> string \<Rightarrow> error + tier_value" where
  "lookup_tier tt tier_name =
     (case tt tier_name of None \<Rightarrow> Inl (KeyError tier_name) | Some v \<Rightarrow> Inr v)"

text \<open>
  The loop \<^verbatim>\<open>for tier_name in tiers_to_run\<close> of \<^verbatim>\<open>main\<close>. A \<^verbatim>\<open>.get\<close> on \<^verbatim>\<open>None\<close>
  raises \<open>AttributeError\<close>.
\<close>

fun tier_loop :: "tiers \<Rightarrow> env \<Rightarrow> string list \<Rightarrow> exec_state \<Rightarrow> status \<times> exec_state" where
  "tier_loop tt world [] st = (Completed, st)"
| "tier_loop tt world (tier_name # rest) st =
     (case lookup_tier tt tier_name of
        Inl e \<Rightarrow> (Crashed e, record_result st tier_name (Aborted e))
      | Inr TNull \<Rightarrow> (Crashed AttributeError, record_result st tier_name (Aborted AttributeError))
      | Inr (TDict tier_cfg) \<Rightarrow>
          if \<not> get_default_enabled tier_cfg
          then tier_loop tt world rest (record_result st tier_name Skip)
          else (case run_tier tier_name tier_cfg world (history (trace st)) of
                  (r, Inl e) \<Rightarrow> (Crashed e, record_result st tier_name r)
                | (r, Inr ok) \<Rightarrow>
                    if \<not> ok
                    then (if get_critical tier_cfg
                          then (Stopped, (record_result st tier_name r)\<lparr>overall_ok := False\<rparr>)
                          else tier_loop tt world rest
                                 ((record_result st tier_name r)\<lparr>overall_ok := False\<rparr>))
                    else tier_loop tt world rest (record_result st tier_name r)))"

definition collect_tiers_for_combo :: "codex_cfg \<Rightarrow> string \<Rightarrow> error + string list" where
  "collect_tiers_for_combo cfg combo =
     (case combinations cfg combo of
        None \<Rightarrow> Inl (SysExit (UnknownCombination combo))
      | Some None \<Rightarrow> Inl (KeyError ''tiers'')
      | Some (Some ts) \<Rightarrow> Inr ts)"

definition initial_state :: exec_state where
  "initial_state = \<lparr>overall_ok = True, trace = []\<rparr>"

text \<open>
  \<^verbatim>\<open>main\<close> after the configuration is loaded: the combination is resolved, the plan is
  expanded, and only then the loop runs.
\<close>

definition main :: "nat \<Rightarrow> codex_cfg \<Rightarrow> string \<Rightarrow> env \<Rightarrow> status \<times> exec_state" where
  "main n cfg combo world =
     (case collect_tiers_for_combo cfg combo of
        Inl e \<Rightarrow> (Crashed e, initial_state)
      | Inr requested_tiers \<Rightarrow>
          (case expand_dependencies n (test_tiers cfg) requested_tiers of
             Inl e \<Rightarrow> (Crashed e, initial_state)
           | Inr tiers_to_run \<Rightarrow> tier_loop (test_tiers cfg) world tiers_to_run initial_state))"

text \<open>
  The status the process leaves with: \<^verbatim>\<open>sys.exit(0 if overall_ok else 1)\<close> at the end of
  \<^verbatim>\<open>main\<close>, and 1 after \<^verbatim>\<open>sys.exit(1)\<close> or an uncaught exception.
\<close>

fun exit_status :: "status \<times> exec_state \<Rightarrow> int" where
  "exit_status (Crashed e, st) = 1"
| "exit_status (s, st) = (if overall_ok st then 0 else 1)"

section \<open>The dependency graph\<close>

text \<open>
  The notions the properties are stated with. The dependencies of a tier are the names
  in the \<^verbatim>\<open>depends_on\<close> of its definition; a name without a definition has none.
\<close>

definition deps_of :: "tiers \<Rightarrow> string \<Rightarrow> string list" where
  "deps_of tt x = (case tt x of Some (TDict c) \<Rightarrow> get_depends_on c | _ \<Rightarrow> [])"

definition dep_edges :: "tiers \<Rightarrow> (string \<times> string) set" where
  "dep_edges tt = {(x, d). d \<in> set (deps_of tt x)}"

text \<open>The requested tiers and their transitive dependencies.\<close>

definition reach :: "tiers \<Rightarrow> string list \<Rightarrow> string set" where
  "reach tt requested = (dep_edges tt)\<^sup>* `` set requested"

text \<open>
  Every entry of the list has a definition that is not falsy, and each of its
  dependencies occurs at a smaller index.
\<close>

definition dep_ordered :: "tiers \<Rightarrow> string list \<Rightarrow> bool" where
  "dep_ordered tt s \<longleftrightarrow>
     (\<forall>i<length s. \<not> not_meta (tt (s ! i)) \<and> set (deps_of tt (s ! i)) \<subseteq> set (take i s))"

definition first_pos :: "string list \<Rightarrow> string \<Rightarrow> nat" where
  "first_pos s a = length (takeWhile (\<lambda>y. y \<noteq> a) s)"

section \<open>A request without its duplicates\<close>

text \<open>The list with every entry that already occurred before it removed.\<close>

fun dedup_acc :: "string list \<Rightarrow> string list \<Rightarrow> string list" where
  "dedup_acc seen [] = []"
| "dedup_acc seen (x # xs) =
     (if x \<in> set seen then dedup_acc seen xs else x # dedup_acc (x # seen) xs)"

definition remove_duplicates :: "string list \<Rightarrow> string list" where
  "remove_duplicates xs = dedup_acc [] xs"

text \<open>The empty object \<^verbatim>\<open>{}\<close>.\<close>

definition empty_dict :: tier_cfg where
  "empty_dict = \<lparr>depends_on = None, discovery = None, default_enabled = None,
                  critical = None, other_keys = []\<rparr>"

section \<open>Notions for the executor\<close>

text \<open>
  A tier of the trace counts against the run unless it was skipped or its invocation
  left with return code 0.
\<close>

fun tier_ok :: "tier_result \<Rightarrow> bool" where
  "tier_ok Skip = True"
| "tier_ok (Invoked cmd (Exited rc)) = (rc = 0)"
| "tier_ok (Invoked cmd Interrupted) = False"
| "tier_ok (Invoked cmd CannotLaunch) = False"
| "tier_ok (Aborted e) = False"

text \<open>Two runs agree on how the loop ended, on the flag and on the invocations made.\<close>

definition same_aggregate :: "status \<times> exec_state \<Rightarrow> status \<times> exec_state \<Rightarrow> bool" where
  "same_aggregate p q \<longleftrightarrow>
     fst p = fst q \<and> overall_ok (snd p) = overall_ok (snd q) \<and>
     history (trace (snd p)) = history (trace (snd q))"

section \<open>Example configurations\<close>

definition tier_with :: "string list \<Rightarrow> tier_value" where
  "tier_with ds =
     TDict \<lparr>depends_on = Some ds, discovery = Some \<lparr>paths = None, markers_any = None\<rparr>,
            default_enabled = None, critical = None, other_keys = []\<rparr>"

text \<open>The diamond: \<open>a\<close> and \<open>b\<close> both depend on \<open>c\<close>.\<close>

definition diamond :: tiers where
  "diamond = [''a'' \<mapsto> tier_with [''c''], ''b'' \<mapsto> tier_with [''c''], ''c'' \<mapsto> tier_with []]"

text \<open>A self-dependency listed before a missing tier, and after it.\<close>

definition loop_then_ghost :: tiers where
  "loop_then_ghost = [''a'' \<mapsto> tier_with [''a'', ''ghost'']]"

definition ghost_then_loop :: tiers where
  "ghost_then_loop = [''a'' \<mapsto> tier_with [''ghost'', ''a'']]"

text \<open>Two tiers that depend on each other.\<close>

definition two_cycle :: tiers where
  "two_cycle = [''a'' \<mapsto> tier_with [''b''], ''b'' \<mapsto> tier_with [''a'']]"

text \<open>Three independent tiers; \<open>b\<close> and \<open>c\<close> carry the given flags.\<close>

definition tier_flags :: "bool option \<Rightarrow> bool option \<Rightarrow> tier_value" where
  "tier_flags en cr =
     TDict \<lparr>depends_on = None, discovery = Some \<lparr>paths = None, markers_any = None\<rparr>,
            default_enabled = en, critical = cr, other_keys = []\<rparr>"

definition pipeline :: "tier_value \<Rightarrow> tier_value \<Rightarrow> tiers" where
  "pipeline vb vc = [''a'' \<mapsto> tier_flags None None, ''b'' \<mapsto> vb, ''c'' \<mapsto> vc]"

text \<open>A world in which the second invocation leaves with return code 1, every other with 0.\<close>

definition fail_second :: env where
  "fail_second h cmd = (if length h = 1 then Exited 1 else Exited 0)"

definition all_pass :: env where
  "all_pass h cmd = Exited 0"

section \<open>Properties of the expansion\<close>

lemma dep_ordered_Nil: "dep_ordered tt []"
  by (simp add: dep_ordered_def)

lemma dep_ordered_snoc:
  "dep_ordered tt (s @ [x]) \<longleftrightarrow>
     dep_ordered tt s \<and> \<not> not_meta (tt x) \<and> set (deps_of tt x) \<subseteq> set s"
  by (auto simp: dep_ordered_def nth_append less_Suc_eq)

lemma add_shape:
  "add_tier n tt x s = Inr s' \<Longrightarrow> (\<exists>new. s' = s @ new) \<and> x \<in> set s'"
  "add_deps n tt ds s = Inr s' \<Longrightarrow> (\<exists>new. s' = s @ new) \<and> set ds \<subseteq> set s'"
proof (induction n tt x s and n tt ds s arbitrary: s' and s' rule: add_tier_add_deps.induct)
  case (1 tt tier ordered)
  then show ?case by simp
next
  case (2 n tt tier ordered)
  show ?case
  proof (cases "tier \<in> set ordered")
    case True
    with 2 show ?thesis by simp
  next
    case False
    with "2.prems" obtain meta s1 where m: "tt tier = Some (TDict meta)" "\<not> not_meta (tt tier)"
      and d: "add_deps n tt (get_depends_on meta) ordered = Inr s1" and s': "s' = s1 @ [tier]"
      by (auto split: if_splits option.splits tier_value.splits sum.splits)
    from "2.IH"[OF False m(2) m(1) refl d] s' show ?thesis by auto
  qed
next
  case (3 n tt ordered)
  then show ?case by simp
next
  case (4 n tt dep deps ordered)
  then show ?case
    by (fastforce split: sum.splits)
qed

lemma add_ordered:
  "add_tier n tt x s = Inr s' \<Longrightarrow> dep_ordered tt s \<Longrightarrow> dep_ordered tt s'"
  "add_deps n tt ds s = Inr s' \<Longrightarrow> dep_ordered tt s \<Longrightarrow> dep_ordered tt s'"
proof (induction n tt x s and n tt ds s arbitrary: s' and s' rule: add_tier_add_deps.induct)
  case (1 tt tier ordered)
  then show ?case by simp
next
  case (2 n tt tier ordered)
  show ?case
  proof (cases "tier \<in> set ordered")
    case True
    with 2 show ?thesis by simp
  next
    case False
    with "2.prems" obtain meta s1 where m: "tt tier = Some (TDict meta)" "\<not> not_meta (tt tier)"
      and d: "add_deps n tt (get_depends_on meta) ordered = Inr s1" and s': "s' = s1 @ [tier]"
      by (auto split: if_splits option.splits tier_value.splits sum.splits)
    from "2.IH"[OF False m(2) m(1) refl d] "2.prems"(2) have "dep_ordered tt s1" by simp
    moreover from add_shape(2)[OF d] have "set (deps_of tt tier) \<subseteq> set s1"
      by (simp add: deps_of_def m)
    ultimately show ?thesis using m s' by (simp add: dep_ordered_snoc)
  qed
next
  case (3 n tt ordered)
  then show ?case by simp
next
  case (4 n tt dep deps ordered)
  then show ?case
    by (auto split: sum.splits)
qed

lemma add_reach:
  "add_tier n tt x s = Inr s' \<Longrightarrow> set s' \<subseteq> set s \<union> (dep_edges tt)\<^sup>* `` {x}"
  "add_deps n tt ds s = Inr s' \<Longrightarrow> set s' \<subseteq> set s \<union> (dep_edges tt)\<^sup>* `` set ds"
proof (induction n tt x s and n tt ds s arbitrary: s' and s' rule: add_tier_add_deps.induct)
  case (1 tt tier ordered)
  then show ?case by simp
next
  case (2 n tt tier ordered)
  show ?case
  proof (cases "tier \<in> set ordered")
    case True
    with 2 show ?thesis by auto
  next
    case False
    with "2.prems" obtain meta s1 where m: "tt tier = Some (TDict meta)" "\<not> not_meta (tt tier)"
      and d: "add_deps n tt (get_depends_on meta) ordered = Inr s1" and s': "s' = s1 @ [tier]"
      by (auto split: if_splits option.splits tier_value.splits sum.splits)
    from "2.IH"[OF False m(2) m(1) refl d]
    have "set s1 \<subseteq> set ordered \<union> (dep_edges tt)\<^sup>* `` set (deps_of tt tier)"
      by (simp add: deps_of_def m)
    moreover have "(dep_edges tt)\<^sup>* `` set (deps_of tt tier) \<subseteq> (dep_edges tt)\<^sup>* `` {tier}"
      by (auto simp: dep_edges_def intro: converse_rtrancl_into_rtrancl)
    ultimately show ?thesis using s' by auto
  qed
next
  case (3 n tt ordered)
  then show ?case by simp
next
  case (4 n tt dep deps ordered)
  from "4.prems" obtain s1 where a: "add_tier n tt dep ordered = Inr s1"
    and b: "add_deps n tt deps s1 = Inr s'"
    by (auto split: sum.splits)
  from "4.IH"(1)[OF a] "4.IH"(2)[OF a b] show ?case by auto
qed

lemma first_pos_le: "j < length s \<Longrightarrow> s ! j = a \<Longrightarrow> first_pos s a \<le> j"
  by (induction s arbitrary: j) (auto simp: first_pos_def nth_Cons split: nat.splits)

lemma first_pos_nth: "a \<in> set s \<Longrightarrow> first_pos s a < length s \<and> s ! first_pos s a = a"
  by (induction s) (auto simp: first_pos_def)

lemma dep_ordered_edge:
  assumes "dep_ordered tt s" "a \<in> set s" "(a, b) \<in> dep_edges tt"
  shows "b \<in> set s \<and> first_pos s b < first_pos s a"
proof -
  let ?i = "first_pos s a"
  from first_pos_nth[OF assms(2)] have i: "?i < length s" "s ! ?i = a" by simp_all
  from assms(1)[unfolded dep_ordered_def, rule_format, OF i(1)] i(2)
  have "set (deps_of tt a) \<subseteq> set (take ?i s)" by simp
  with assms(3) have "b \<in> set (take ?i s)" by (auto simp: dep_edges_def)
  then obtain j where j: "j < ?i" "j < length s" "s ! j = b"
    by (auto simp: in_set_conv_nth)
  from first_pos_le[OF j(2,3)] j show ?thesis by (auto intro: nth_mem)
qed

lemma dep_ordered_trancl:
  assumes "dep_ordered tt s" "(a, b) \<in> (dep_edges tt)\<^sup>+" "a \<in> set s"
  shows "b \<in> set s \<and> first_pos s b < first_pos s a"
  using assms(2,3)
proof (induction rule: trancl_induct)
  case (base y)
  then show ?case using dep_ordered_edge[OF assms(1)] by blast
next
  case (step y z)
  then have y: "y \<in> set s" "first_pos s y < first_pos s a" by simp_all
  from dep_ordered_edge[OF assms(1) y(1) step.hyps(2)] y(2) show ?case by simp
qed

lemma dep_ordered_no_cycle: "dep_ordered tt s \<Longrightarrow> a \<in> set s \<Longrightarrow> (a, a) \<notin> (dep_edges tt)\<^sup>+"
  using dep_ordered_trancl[of tt s a a] by auto

lemma dep_ordered_closed:
  "dep_ordered tt s \<Longrightarrow> a \<in> set s \<Longrightarrow> (a, b) \<in> (dep_edges tt)\<^sup>* \<Longrightarrow> b \<in> set s"
  using dep_ordered_trancl[of tt s a b] by (auto simp: rtrancl_eq_or_trancl)

lemma add_distinct:
  "add_tier n tt x s = Inr s' \<Longrightarrow> dep_ordered tt s \<Longrightarrow> distinct s \<Longrightarrow> distinct s'"
  "add_deps n tt ds s = Inr s' \<Longrightarrow> dep_ordered tt s \<Longrightarrow> distinct s \<Longrightarrow> distinct s'"
proof (induction n tt x s and n tt ds s arbitrary: s' and s' rule: add_tier_add_deps.induct)
  case (1 tt tier ordered)
  then show ?case by simp
next
  case (2 n tt tier ordered)
  show ?case
  proof (cases "tier \<in> set ordered")
    case True
    with 2 show ?thesis by simp
  next
    case False
    with "2.prems" obtain meta s1 where m: "tt tier = Some (TDict meta)" "\<not> not_meta (tt tier)"
      and d: "add_deps n tt (get_depends_on meta) ordered = Inr s1" and s': "s' = s1 @ [tier]"
      by (auto split: if_splits option.splits tier_value.splits sum.splits)
    from "2.IH"[OF False m(2) m(1) refl d] "2.prems" have ds1: "distinct s1" by simp
    from add_ordered(2)[OF d] "2.prems" have os1: "dep_ordered tt s1" by simp
    have "tier \<notin> set s1"
    proof
      assume t: "tier \<in> set s1"
      with add_reach(2)[OF d] False
      have "tier \<in> (dep_edges tt)\<^sup>* `` set (get_depends_on meta)" by auto
      then obtain d' where "d' \<in> set (deps_of tt tier)" "(d', tier) \<in> (dep_edges tt)\<^sup>*"
        by (auto simp: deps_of_def m)
      then have "(tier, tier) \<in> (dep_edges tt)\<^sup>+"
        by (auto simp: dep_edges_def intro: rtrancl_into_trancl2)
      with dep_ordered_no_cycle[OF os1 t] show False by simp
    qed
    with ds1 s' show ?thesis by simp
  qed
next
  case (3 n tt ordered)
  then show ?case by simp
next
  case (4 n tt dep deps ordered)
  from "4.prems" obtain s1 where a: "add_tier n tt dep ordered = Inr s1"
    and b: "add_deps n tt deps s1 = Inr s'"
    by (auto split: sum.splits)
  from "4.IH"(1)[OF a] "4.prems" have "distinct s1" by simp
  moreover from add_ordered(1)[OF a] "4.prems" have "dep_ordered tt s1" by simp
  ultimately show ?case using "4.IH"(2)[OF a b] by simp
qed

lemma expand_ok:
  assumes "expand_dependencies n tt requested = Inr plan"
  shows "dep_ordered tt plan" "distinct plan" "set plan = reach tt requested"
proof -
  from assms have a: "add_deps n tt requested [] = Inr plan"
    by (simp add: expand_dependencies_def)
  show o: "dep_ordered tt plan" using add_ordered(2)[OF a] by (simp add: dep_ordered_Nil)
  show "distinct plan" using add_distinct(2)[OF a] by (simp add: dep_ordered_Nil)
  from add_reach(2)[OF a] have "set plan \<subseteq> reach tt requested" by (simp add: reach_def)
  moreover from add_shape(2)[OF a] have "set requested \<subseteq> set plan" by simp
  then have "reach tt requested \<subseteq> set plan"
    using dep_ordered_closed[OF o] by (auto simp: reach_def)
  ultimately show "set plan = reach tt requested" by auto
qed

lemma dedup_acc_set: "set (dedup_acc seen xs) = set xs - set seen"
  by (induction seen xs rule: dedup_acc.induct) auto

lemma dedup_acc_distinct: "distinct (dedup_acc seen xs)"
  by (induction seen xs rule: dedup_acc.induct) (auto simp: dedup_acc_set)

lemma remove_duplicates_sound:
  "distinct (remove_duplicates xs) \<and> set (remove_duplicates xs) = set xs"
  by (simp add: remove_duplicates_def dedup_acc_set dedup_acc_distinct)

lemma add_deps_dedup:
  "set seen \<subseteq> set s \<Longrightarrow>
   add_deps (Suc n) tt xs s = add_deps (Suc n) tt (dedup_acc seen xs) s"
proof (induction xs arbitrary: seen s)
  case Nil
  then show ?case by simp
next
  case (Cons x xs)
  show ?case
  proof (cases "x \<in> set seen")
    case True
    with Cons.prems have "x \<in> set s" by auto
    then have "add_tier (Suc n) tt x s = Inr s" by simp
    with True Cons.IH[OF Cons.prems] show ?thesis by simp
  next
    case False
    show ?thesis
    proof (cases "add_tier (Suc n) tt x s")
      case (Inl e)
      with False show ?thesis by simp
    next
      case (Inr s1)
      from add_shape(1)[OF Inr] Cons.prems have "set (x # seen) \<subseteq> set s1" by auto
      from Cons.IH[OF this] Inr False show ?thesis by simp
    qed
  qed
qed

lemma add_deps_0: "add_deps 0 tt xs s = (if xs = [] then Inr s else Inl RecursionError)"
  by (cases xs) simp_all

lemma dedup_acc_Nil: "dedup_acc [] xs = [] \<longleftrightarrow> xs = []"
  by (cases xs) simp_all

lemma falsy_as_undefined_aux:
  assumes "not_meta (Some v)"
  shows "(\<forall>x s. add_tier n (tt(t \<mapsto> v)) x s = add_tier n (tt(t := None)) x s) \<and>
         (\<forall>ds s. add_deps n (tt(t \<mapsto> v)) ds s = add_deps n (tt(t := None)) ds s)"
proof (induction n)
  case 0
  show ?case by (simp add: add_deps_0)
next
  case (Suc n)
  then have d: "add_deps n (tt(t \<mapsto> v)) ds s = add_deps n (tt(t := None)) ds s" for ds s
    by blast
  have t: "add_tier (Suc n) (tt(t \<mapsto> v)) x s = add_tier (Suc n) (tt(t := None)) x s" for x s
  proof (cases "x = t")
    case True
    with assms show ?thesis by simp
  next
    case False
    then show ?thesis by (simp add: d split: option.splits tier_value.splits)
  qed
  have "add_deps (Suc n) (tt(t \<mapsto> v)) ds s = add_deps (Suc n) (tt(t := None)) ds s" for ds s
    by (induction ds arbitrary: s) (simp_all add: t del: add_tier.simps cong: sum.case_cong)
  with t show ?case by blast
qed

lemma falsy_as_undefined:
  assumes "not_meta (Some v)"
  shows "add_deps n (tt(t \<mapsto> v)) ds s = add_deps n (tt(t := None)) ds s"
  using falsy_as_undefined_aux[OF assms] by blast

lemma fuel_Suc:
  "add_tier n tt x s \<noteq> Inl RecursionError \<Longrightarrow> add_tier (Suc n) tt x s = add_tier n tt x s"
  "add_deps n tt ds s \<noteq> Inl RecursionError \<Longrightarrow> add_deps (Suc n) tt ds s = add_deps n tt ds s"
proof (induction n tt x s and n tt ds s rule: add_tier_add_deps.induct)
  case (1 tt tier ordered)
  then show ?case by simp
next
  case (2 n tt tier ordered)
  show ?case
  proof (cases "tier \<in> set ordered \<or> not_meta (tt tier)")
    case True
    then show ?thesis by auto
  next
    case False
    then obtain meta where m: "tt tier = Some (TDict meta)"
      by (cases "tt tier" rule: not_meta.cases) auto
    with False "2.prems" have "add_deps n tt (get_depends_on meta) ordered \<noteq> Inl RecursionError"
      by (auto split: sum.splits)
    with "2.IH"[OF _ _ m refl] False
    have "add_deps (Suc n) tt (get_depends_on meta) ordered =
          add_deps n tt (get_depends_on meta) ordered" by simp
    with False m show ?thesis by simp
  qed
next
  case (3 n tt ordered)
  then show ?case by simp
next
  case (4 n tt dep deps ordered)
  show ?case
  proof (cases "add_tier n tt dep ordered")
    case (Inl e)
    with "4.prems" have "e \<noteq> RecursionError" by auto
    with "4.IH"(1) Inl show ?thesis by (simp del: add_tier.simps)
  next
    case (Inr s1)
    with "4.prems" have "add_deps n tt deps s1 \<noteq> Inl RecursionError" by simp
    with "4.IH"(1) "4.IH"(2)[OF Inr] Inr show ?thesis by (simp del: add_tier.simps)
  qed
qed

lemma fuel_mono:
  "add_tier n tt x s \<noteq> Inl RecursionError \<Longrightarrow> n \<le> m \<Longrightarrow> add_tier m tt x s = add_tier n tt x s"
proof (induction m)
  case 0
  then show ?case by simp
next
  case (Suc m)
  show ?case
  proof (cases "n = Suc m")
    case True
    then show ?thesis by simp
  next
    case False
    with Suc have e: "add_tier m tt x s = add_tier n tt x s" by simp
    with Suc.prems(1) fuel_Suc(1)[of m tt x s] show ?thesis by simp
  qed
qed

lemma fuel_mono_deps:
  "add_deps n tt ds s \<noteq> Inl RecursionError \<Longrightarrow> n \<le> m \<Longrightarrow> add_deps m tt ds s = add_deps n tt ds s"
proof (induction m)
  case 0
  then show ?case by simp
next
  case (Suc m)
  show ?case
  proof (cases "n = Suc m")
    case True
    then show ?thesis by simp
  next
    case False
    with Suc have e: "add_deps m tt ds s = add_deps n tt ds s" by simp
    with Suc.prems(1) fuel_Suc(2)[of m tt ds s] show ?thesis by simp
  qed
qed

lemma add_deps_no_rec:
  "(\<And>d s. d \<in> set ds \<Longrightarrow> add_tier n tt d s \<noteq> Inl RecursionError) \<Longrightarrow>
   add_deps n tt ds s \<noteq> Inl RecursionError"
  by (induction ds arbitrary: s) (auto split: sum.splits)

lemma add_tier_no_rec:
  assumes "\<And>d s. d \<in> set (deps_of tt x) \<Longrightarrow> add_tier n tt d s \<noteq> Inl RecursionError"
  shows "add_tier (Suc n) tt x s \<noteq> Inl RecursionError"
proof (cases "x \<in> set s \<or> not_meta (tt x)")
  case True
  then show ?thesis by auto
next
  case False
  then obtain meta where m: "tt x = Some (TDict meta)"
    by (cases "tt x" rule: not_meta.cases) auto
  from add_deps_no_rec[of "get_depends_on meta" n tt s] assms
  have "add_deps n tt (get_depends_on meta) s \<noteq> Inl RecursionError"
    by (simp add: deps_of_def m)
  with False m show ?thesis by (auto split: sum.splits)
qed

lemma uniform_budget:
  "(\<And>d. d \<in> set ds \<Longrightarrow> \<exists>N. \<forall>s. add_tier N tt d s \<noteq> Inl RecursionError) \<Longrightarrow>
   \<exists>N. \<forall>d\<in>set ds. \<forall>s. add_tier N tt d s \<noteq> Inl RecursionError"
proof (induction ds)
  case Nil
  then show ?case by simp
next
  case (Cons d ds)
  then obtain N1 where n1: "\<forall>d\<in>set ds. \<forall>s. add_tier N1 tt d s \<noteq> Inl RecursionError"
    by auto
  from Cons.prems[of d] obtain N2 where n2: "\<forall>s. add_tier N2 tt d s \<noteq> Inl RecursionError"
    by auto
  have "\<forall>d'\<in>set (d # ds). \<forall>s. add_tier (max N1 N2) tt d' s \<noteq> Inl RecursionError"
    using n1 n2 fuel_mono[of N1 tt _ _ "max N1 N2"] fuel_mono[of N2 tt d _ "max N1 N2"]
    by auto
  then show ?case by blast
qed

lemma reach_closed:
  assumes "x \<in> reach tt req" "d \<in> set (deps_of tt x)"
  shows "d \<in> reach tt req"
proof -
  from assms(1) obtain r where r: "r \<in> set req" "(r, x) \<in> (dep_edges tt)\<^sup>*"
    by (auto simp: reach_def)
  from assms(2) have "(x, d) \<in> dep_edges tt" by (simp add: dep_edges_def)
  with r(2) have "(r, d) \<in> (dep_edges tt)\<^sup>*" by (rule rtrancl_into_rtrancl)
  with r(1) show ?thesis by (auto simp: reach_def)
qed

lemma dep_edges_finite:
  assumes "finite (dom tt)"
  shows "finite (dep_edges tt)"
proof -
  have "dep_edges tt \<subseteq> (\<Union>x\<in>dom tt. {x} \<times> set (deps_of tt x))"
  proof
    fix p assume "p \<in> dep_edges tt"
    then obtain x d where p: "p = (x, d)" "d \<in> set (deps_of tt x)"
      by (auto simp: dep_edges_def)
    then have "tt x \<noteq> None" by (cases "tt x") (simp_all add: deps_of_def)
    with p show "p \<in> (\<Union>x\<in>dom tt. {x} \<times> set (deps_of tt x))" by auto
  qed
  moreover have "finite (\<Union>x\<in>dom tt. {x} \<times> set (deps_of tt x))"
    using assms by simp
  ultimately show ?thesis by (rule finite_subset)
qed

lemma acyclic_budget:
  assumes fin: "finite (dom tt)"
    and acyc: "\<And>x. x \<in> reach tt req \<Longrightarrow> (x, x) \<notin> (dep_edges tt)\<^sup>+"
  shows "x \<in> reach tt req \<Longrightarrow> \<exists>N. \<forall>s. add_tier N tt x s \<noteq> Inl RecursionError"
proof -
  define Rel where "Rel = {(d, x). x \<in> reach tt req \<and> (x, d) \<in> dep_edges tt}"
  have sub: "Rel \<subseteq> (dep_edges tt)\<inverse>" by (auto simp: Rel_def)
  have "finite ((dep_edges tt)\<inverse>)"
    using dep_edges_finite[OF fin] by simp
  with sub have "finite Rel" by (rule finite_subset)
  moreover have "acyclic Rel"
  proof (rule acyclicI, rule allI, rule notI)
    fix y assume y: "(y, y) \<in> Rel\<^sup>+"
    then obtain z where "(z, y) \<in> Rel" using tranclD2 by metis
    then have "y \<in> reach tt req" by (simp add: Rel_def)
    moreover from y trancl_mono[OF _ sub] have "(y, y) \<in> ((dep_edges tt)\<inverse>)\<^sup>+" by blast
    then have "(y, y) \<in> (dep_edges tt)\<^sup>+" by (simp add: trancl_converse)
    ultimately show False using acyc by blast
  qed
  ultimately have "wf Rel" by (rule finite_acyclic_wf)
  then show "x \<in> reach tt req \<Longrightarrow> \<exists>N. \<forall>s. add_tier N tt x s \<noteq> Inl RecursionError"
  proof (induction x rule: wf_induct_rule)
    case (less x)
    have "\<exists>N. \<forall>s. add_tier N tt d s \<noteq> Inl RecursionError" if "d \<in> set (deps_of tt x)" for d
    proof -
      from that less.prems have "(d, x) \<in> Rel" by (simp add: Rel_def dep_edges_def)
      moreover from less.prems that have "d \<in> reach tt req" by (rule reach_closed)
      ultimately show ?thesis by (rule less.IH)
    qed
    from uniform_budget[of "deps_of tt x" tt, OF this] obtain N
      where "\<forall>d\<in>set (deps_of tt x). \<forall>s. add_tier N tt d s \<noteq> Inl RecursionError" by blast
    then have "add_tier (Suc N) tt x s \<noteq> Inl RecursionError" for s
      by (intro add_tier_no_rec) simp
    then show ?case by blast
  qed
qed

lemma acyclic_terminates:
  assumes "finite (dom tt)"
    and "\<And>x. x \<in> reach tt req \<Longrightarrow> (x, x) \<notin> (dep_edges tt)\<^sup>+"
  shows "\<exists>N r. r \<noteq> Inl RecursionError \<and> (\<forall>n\<ge>N. expand_dependencies n tt req = r)"
proof -
  have "\<exists>N. \<forall>s. add_tier N tt d s \<noteq> Inl RecursionError" if "d \<in> set req" for d
  proof (rule acyclic_budget[where req = req])
    show "finite (dom tt)" by fact
    show "(x, x) \<notin> (dep_edges tt)\<^sup>+" if "x \<in> reach tt req" for x
      using that by (rule assms(2))
    show "d \<in> reach tt req" using that by (auto simp: reach_def)
  qed
  from uniform_budget[of req tt, OF this] obtain N
    where "\<forall>d\<in>set req. \<forall>s. add_tier N tt d s \<noteq> Inl RecursionError" by blast
  then have n: "add_deps N tt req [] \<noteq> Inl RecursionError"
    by (intro add_deps_no_rec) simp
  have "expand_dependencies m tt req = add_deps N tt req []" if "N \<le> m" for m
    unfolding expand_dependencies_def using n that by (rule fuel_mono_deps)
  with n show ?thesis by blast
qed

lemma add_fail:
  "add_tier n tt x s = Inl e \<Longrightarrow>
   e = RecursionError \<or>
   (\<exists>t. e = SysExit (TierNotDefined t) \<and> (x, t) \<in> (dep_edges tt)\<^sup>* \<and> not_meta (tt t))"
  "add_deps n tt ds s = Inl e \<Longrightarrow>
   e = RecursionError \<or>
   (\<exists>t. e = SysExit (TierNotDefined t) \<and> (\<exists>d\<in>set ds. (d, t) \<in> (dep_edges tt)\<^sup>*) \<and>
        not_meta (tt t))"
proof (induction n tt x s and n tt ds s rule: add_tier_add_deps.induct)
  case (1 tt tier ordered)
  then show ?case by simp
next
  case (2 n tt tier ordered)
  show ?case
  proof (cases "not_meta (tt tier)")
    case True
    with "2.prems" have "e = SysExit (TierNotDefined tier)" by (simp split: if_splits)
    with True show ?thesis by blast
  next
    case False
    then obtain meta where m: "tt tier = Some (TDict meta)"
      by (cases "tt tier" rule: not_meta.cases) auto
    from "2.prems" False m have ni: "tier \<notin> set ordered"
      and d: "add_deps n tt (get_depends_on meta) ordered = Inl e"
      by (auto split: if_splits sum.splits)
    from "2.IH"[OF ni False m refl d] show ?thesis
    proof
      assume "e = RecursionError"
      then show ?thesis by simp
    next
      assume "\<exists>t. e = SysExit (TierNotDefined t) \<and>
        (\<exists>d\<in>set (get_depends_on meta). (d, t) \<in> (dep_edges tt)\<^sup>*) \<and> not_meta (tt t)"
      then obtain t d where t: "e = SysExit (TierNotDefined t)" "not_meta (tt t)"
        and dd: "d \<in> set (get_depends_on meta)" "(d, t) \<in> (dep_edges tt)\<^sup>*" by blast
      from dd(1) have "(tier, d) \<in> dep_edges tt" by (simp add: dep_edges_def deps_of_def m)
      from this dd(2) have "(tier, t) \<in> (dep_edges tt)\<^sup>*"
        by (rule converse_rtrancl_into_rtrancl)
      with t show ?thesis by blast
    qed
  qed
next
  case (3 n tt ordered)
  then show ?case by simp
next
  case (4 n tt dep deps ordered)
  show ?case
  proof (cases "add_tier n tt dep ordered")
    case (Inl e')
    with "4.prems" have "e' = e" by simp
    with "4.IH"(1) Inl have "e = RecursionError \<or>
      (\<exists>t. e = SysExit (TierNotDefined t) \<and> (dep, t) \<in> (dep_edges tt)\<^sup>* \<and> not_meta (tt t))"
      by simp
    then show ?thesis by auto
  next
    case (Inr s1)
    with "4.prems" have "add_deps n tt deps s1 = Inl e" by simp
    from "4.IH"(2)[OF Inr this] show ?thesis by auto
  qed
qed

lemma expand_fail:
  "expand_dependencies n tt req = Inl e \<Longrightarrow>
   e = RecursionError \<or>
   (\<exists>t. e = SysExit (TierNotDefined t) \<and> t \<in> reach tt req \<and> not_meta (tt t))"
  using add_fail(2)[of n tt req "[]" e] by (auto simp: expand_dependencies_def reach_def)

lemma undefined_no_plan:
  assumes "t \<in> reach tt req" "not_meta (tt t)"
  shows "expand_dependencies n tt req \<noteq> Inr plan"
proof
  assume e: "expand_dependencies n tt req = Inr plan"
  from expand_ok(3)[OF e] assms(1) have "t \<in> set plan" by simp
  then obtain i where "i < length plan" "plan ! i = t"
    by (auto simp: in_set_conv_nth)
  with expand_ok(1)[OF e] assms(2) show False by (auto simp: dep_ordered_def)
qed

lemma cycle_no_plan:
  assumes "x \<in> reach tt req" "(x, x) \<in> (dep_edges tt)\<^sup>+"
  shows "expand_dependencies n tt req \<noteq> Inr plan"
proof
  assume e: "expand_dependencies n tt req = Inr plan"
  from expand_ok(1,3)[OF e] assms(1) dep_ordered_no_cycle[of tt plan x] assms(2)
  show False by auto
qed

lemma diamond_eval: "expand_dependencies 3 diamond [''a'', ''b''] = Inr [''c'', ''a'', ''b'']"
  by (simp add: expand_dependencies_def diamond_def tier_with_def eval_nat_numeral
      dict_empty_def get_depends_on_def)

lemma main_expand_fail:
  assumes "combinations cfg combo = Some (Some requested)"
    and "expand_dependencies n (test_tiers cfg) requested = Inl e"
  shows "main n cfg combo world = (Crashed e, initial_state)"
  using assms by (simp add: main_def collect_tiers_for_combo_def)

lemma diamond_acyclic: "(x, x) \<notin> (dep_edges diamond)\<^sup>+"
proof (cases "x \<in> set [''c'', ''a'', ''b'']")
  case True
  with dep_ordered_no_cycle[OF expand_ok(1)[OF diamond_eval]] show ?thesis by blast
next
  case False
  then have "deps_of diamond x = []" by (simp add: deps_of_def diamond_def)
  then have "\<And>z. (x, z) \<notin> dep_edges diamond" by (simp add: dep_edges_def)
  then show ?thesis by (auto dest: tranclD)
qed

lemma diamond_finite: "finite (dom diamond)"
  by (simp add: diamond_def)

lemma loop_then_ghost_rec: "add_tier n loop_then_ghost ''a'' [] = Inl RecursionError"
  by (induction n) (simp_all add: loop_then_ghost_def tier_with_def dict_empty_def
      get_depends_on_def)

lemma ghost_then_loop_exit:
  "expand_dependencies (Suc (Suc n)) ghost_then_loop [''a''] =
     Inl (SysExit (TierNotDefined ''ghost''))"
  by (simp add: expand_dependencies_def ghost_then_loop_def tier_with_def dict_empty_def
      get_depends_on_def)

lemma two_cycle_edges:
  "(''a'', ''b'') \<in> dep_edges two_cycle" "(''b'', ''a'') \<in> dep_edges two_cycle"
  by (simp_all add: dep_edges_def deps_of_def two_cycle_def tier_with_def get_depends_on_def)

lemma two_cycle_reach: "y \<in> reach two_cycle [''a''] \<Longrightarrow> y = ''a'' \<or> y = ''b''"
proof -
  assume "y \<in> reach two_cycle [''a'']"
  then have "(''a'', y) \<in> (dep_edges two_cycle)\<^sup>*" by (simp add: reach_def)
  then show ?thesis
    by (induction rule: rtrancl_induct)
      (auto simp: dep_edges_def deps_of_def two_cycle_def tier_with_def get_depends_on_def
        split: if_splits)
qed

lemma defined_acyclic_plan:
  assumes "finite (dom tt)"
    and "\<forall>x\<in>reach tt requested. \<not> not_meta (tt x) \<and> (x, x) \<notin> (dep_edges tt)\<^sup>+"
  shows "\<exists>N p. \<forall>m\<ge>N. expand_dependencies m tt requested = Inr p"
proof -
  from acyclic_terminates[of tt requested] assms obtain N r
    where r: "r \<noteq> Inl RecursionError" "\<forall>m\<ge>N. expand_dependencies m tt requested = r"
    by blast
  from r(2) have rn: "expand_dependencies N tt requested = r" by simp
  have "\<exists>p. r = Inr p"
  proof (cases r)
    case (Inl e)
    with expand_fail[of N tt requested e] rn r(1) assms(2) show ?thesis by auto
  next
    case (Inr p)
    then show ?thesis by simp
  qed
  with r(2) show ?thesis by blast
qed

lemma diamond_reach_defined:
  "\<forall>x\<in>reach diamond [''a'', ''b'']. \<not> not_meta (diamond x) \<and> (x, x) \<notin> (dep_edges diamond)\<^sup>+"
proof
  fix x assume "x \<in> reach diamond [''a'', ''b'']"
  with expand_ok(3)[OF diamond_eval] have "x \<in> set [''c'', ''a'', ''b'']" by simp
  then have "\<not> not_meta (diamond x)"
    by (auto simp: diamond_def tier_with_def dict_empty_def)
  with diamond_acyclic show "\<not> not_meta (diamond x) \<and> (x, x) \<notin> (dep_edges diamond)\<^sup>+"
    by simp
qed

text \<open>
  Claim C1. A plan returned by \<open>expand_dependencies\<close> holds exactly the requested tiers
  and their transitive dependencies, each once, and every name in the \<^verbatim>\<open>depends_on\<close> of
  a tier of the plan stands at a strictly smaller index than the tier. For a finite tier
  map in which every tier reachable from the request is defined and none lies on a
  dependency cycle, a plan is returned for every large enough depth budget.
\<close>

theorem expand_dependencies_plan:
  "(expand_dependencies n tt requested = Inr plan \<longrightarrow>
      set plan = reach tt requested \<and> distinct plan \<and>
      (\<forall>i<length plan. \<forall>d\<in>set (deps_of tt (plan ! i)). \<exists>j<i. plan ! j = d)) \<and>
   (finite (dom tt) \<and>
    (\<forall>x\<in>reach tt requested. \<not> not_meta (tt x) \<and> (x, x) \<notin> (dep_edges tt)\<^sup>+) \<longrightarrow>
      (\<exists>N p. \<forall>m\<ge>N. expand_dependencies m tt requested = Inr p))"
proof (intro conjI impI)
  assume e: "expand_dependencies n tt requested = Inr plan"
  have "\<exists>j<i. plan ! j = d" if "i < length plan" "d \<in> set (deps_of tt (plan ! i))" for i d
  proof -
    from expand_ok(1)[OF e] that(1) have "set (deps_of tt (plan ! i)) \<subseteq> set (take i plan)"
      by (simp add: dep_ordered_def)
    with that(2) have "d \<in> set (take i plan)" by blast
    then obtain j where "j < length (take i plan)" "take i plan ! j = d"
      by (auto simp: in_set_conv_nth)
    then show ?thesis by auto
  qed
  then show "\<forall>i<length plan. \<forall>d\<in>set (deps_of tt (plan ! i)). \<exists>j<i. plan ! j = d" by blast
  show "set plan = reach tt requested" "distinct plan" using expand_ok(2,3)[OF e] by simp_all
next
  assume "finite (dom tt) \<and>
    (\<forall>x\<in>reach tt requested. \<not> not_meta (tt x) \<and> (x, x) \<notin> (dep_edges tt)\<^sup>+)"
  then show "\<exists>N p. \<forall>m\<ge>N. expand_dependencies m tt requested = Inr p"
    using defined_acyclic_plan[of tt requested] by blast
qed

theorem expand_dependencies_plan_witness:
  "expand_dependencies 3 diamond [''a'', ''b''] = Inr [''c'', ''a'', ''b''] \<and>
   set [''c'', ''a'', ''b''] = reach diamond [''a'', ''b''] \<and>
   distinct [''c'', ''a'', ''b''] \<and>
   ''c'' \<in> set (deps_of diamond ([''c'', ''a'', ''b''] ! 1)) \<and>
   (\<exists>j<1. [''c'', ''a'', ''b''] ! j = ''c'') \<and>
   finite (dom diamond) \<and>
   (\<exists>N p. \<forall>m\<ge>N. expand_dependencies m diamond [''a'', ''b''] = Inr p)"
proof -
  have d: "''c'' \<in> set (deps_of diamond ([''c'', ''a'', ''b''] ! 1))"
    by (simp add: deps_of_def diamond_def tier_with_def get_depends_on_def)
  note t = expand_dependencies_plan[of 3 diamond "[''a'', ''b'']" "[''c'', ''a'', ''b'']"]
  from t diamond_eval
  have "set [''c'', ''a'', ''b''] = reach diamond [''a'', ''b'']"
    and "\<forall>i<length [''c'', ''a'', ''b''].
           \<forall>d\<in>set (deps_of diamond ([''c'', ''a'', ''b''] ! i)). \<exists>j<i. [''c'', ''a'', ''b''] ! j = d"
    by blast+
  moreover from t diamond_finite diamond_reach_defined
  have "\<exists>N p. \<forall>m\<ge>N. expand_dependencies m diamond [''a'', ''b''] = Inr p" by blast
  ultimately show ?thesis using d diamond_eval diamond_finite by simp
qed

text \<open>
  Claim C9. Every name in a plan returned by \<open>expand_dependencies\<close> is a key of
  \<^verbatim>\<open>test_tiers\<close> whose value is a non-empty object, so the lookup
  \<^verbatim>\<open>test_tiers[tier_name]\<close> of \<^verbatim>\<open>main\<close> finds it.
\<close>

theorem plan_tiers_defined:
  assumes "expand_dependencies n tt requested = Inr plan" and "t \<in> set plan"
  shows "\<exists>c. tt t = Some (TDict c) \<and> \<not> dict_empty c \<and> lookup_tier tt t = Inr (TDict c)"
proof -
  from assms(2) obtain i where "i < length plan" "plan ! i = t"
    by (auto simp: in_set_conv_nth)
  with expand_ok(1)[OF assms(1)] have "\<not> not_meta (tt t)"
    by (auto simp: dep_ordered_def)
  then show ?thesis
    by (cases "tt t" rule: not_meta.cases) (auto simp: lookup_tier_def)
qed

theorem plan_tiers_defined_witness:
  "expand_dependencies 3 diamond [''a'', ''b''] = Inr [''c'', ''a'', ''b''] \<and>
   ''c'' \<in> set [''c'', ''a'', ''b''] \<and>
   (\<exists>c. diamond ''c'' = Some (TDict c) \<and> \<not> dict_empty c \<and>
        lookup_tier diamond ''c'' = Inr (TDict c))"
  using plan_tiers_defined[OF diamond_eval, of "''c''"] diamond_eval by simp

text \<open>
  Claim C7. A request list yields the same result (the same plan, or the same failure) as
  the request list with its duplicate entries removed.
\<close>

theorem expand_dependencies_duplicates:
  "expand_dependencies n tt requested = expand_dependencies n tt (remove_duplicates requested)"
proof (cases n)
  case 0
  then show ?thesis
    by (simp add: expand_dependencies_def remove_duplicates_def add_deps_0 dedup_acc_Nil)
next
  case (Suc m)
  then show ?thesis
    using add_deps_dedup[of "[]" "[]" m tt requested]
    by (simp add: expand_dependencies_def remove_duplicates_def)
qed

text \<open>
  Claim C10. A tier whose value in \<^verbatim>\<open>test_tiers\<close> is falsy (\<^verbatim>\<open>null\<close> or the empty
  object) is treated as a missing key: the expansion computes what it computes without
  the key, the call of \<open>add_tier\<close> that reaches the tier ends the run with the
  `not defined' message, and \<^verbatim>\<open>main\<close> leaves with status 1 without running a tier.
\<close>

theorem falsy_tier_is_undefined:
  assumes "not_meta (Some v)" and "t \<notin> set ordered"
    and "test_tiers cfg = tt(t \<mapsto> v)" and "combinations cfg combo = Some (Some (t # rest))"
  shows "expand_dependencies m (tt(t \<mapsto> v)) requested =
           expand_dependencies m (tt(t := None)) requested \<and>
         add_tier (Suc n) (tt(t \<mapsto> v)) t ordered = Inl (SysExit (TierNotDefined t)) \<and>
         main (Suc n) cfg combo world = (Crashed (SysExit (TierNotDefined t)), initial_state) \<and>
         exit_status (main (Suc n) cfg combo world) = 1"
proof -
  have a: "add_tier (Suc n) (tt(t \<mapsto> v)) t ordered = Inl (SysExit (TierNotDefined t))"
    if "t \<notin> set ordered" for ordered :: "string list"
    using assms(1) that by simp
  have "expand_dependencies (Suc n) (tt(t \<mapsto> v)) (t # rest) = Inl (SysExit (TierNotDefined t))"
    unfolding expand_dependencies_def using a[of "[]"] by (simp del: add_tier.simps)
  then have m: "main (Suc n) cfg combo world =
      (Crashed (SysExit (TierNotDefined t)), initial_state)"
    by (simp add: main_def collect_tiers_for_combo_def assms(3,4))
  show ?thesis
    using falsy_as_undefined[OF assms(1)] a[OF assms(2)] m
    by (simp add: expand_dependencies_def)
qed

theorem falsy_tier_is_undefined_witness:
  "not_meta (Some (TDict empty_dict)) \<and> ''a'' \<notin> set [''b''] \<and>
   expand_dependencies 2 (diamond(''a'' \<mapsto> TDict empty_dict)) [''b'', ''a''] =
     expand_dependencies 2 (diamond(''a'' := None)) [''b'', ''a''] \<and>
   add_tier 2 (diamond(''a'' \<mapsto> TDict empty_dict)) ''a'' [''b''] =
     Inl (SysExit (TierNotDefined ''a'')) \<and>
   exit_status (main 2 \<lparr>test_tiers = diamond(''a'' \<mapsto> TDict empty_dict),
                          combinations = [''smoke'' \<mapsto> Some [''a'', ''b'']]\<rparr> ''smoke''
                        (\<lambda>h cmd. Exited 0)) = 1"
proof -
  have h: "not_meta (Some (TDict empty_dict))" "''a'' \<notin> set [''b'']"
    by (simp_all add: empty_dict_def dict_empty_def)
  from falsy_tier_is_undefined[OF h, where m = 2 and n = 1 and tt = diamond
      and cfg = "\<lparr>test_tiers = diamond(''a'' \<mapsto> TDict empty_dict),
                  combinations = [''smoke'' \<mapsto> Some [''a'', ''b'']]\<rparr>"
      and combo = "''smoke''" and rest = "[''b'']" and requested = "[''b'', ''a'']"
      and world = "\<lambda>h cmd. Exited 0"] h
  show ?thesis by (simp add: numeral_2_eq_2 del: add_tier.simps)
qed

text \<open>
  Claim C6, as stated, at a concrete input: the request reaches the missing name
  \<open>ghost\<close>, but the tier that names it depends on itself first, and the expansion ends
  in \<open>RecursionError\<close>, not in the `not defined' exit.
\<close>

theorem undefined_tier_counterexample:
  "''ghost'' \<in> reach loop_then_ghost [''a''] \<and> loop_then_ghost ''ghost'' = None \<and>
   expand_dependencies 1000 loop_then_ghost [''a''] = Inl RecursionError"
proof -
  have "(''a'', ''ghost'') \<in> dep_edges loop_then_ghost"
    by (simp add: dep_edges_def deps_of_def loop_then_ghost_def tier_with_def get_depends_on_def)
  then have "''ghost'' \<in> reach loop_then_ghost [''a'']"
    by (auto simp: reach_def)
  moreover have "loop_then_ghost ''ghost'' = None" by (simp add: loop_then_ghost_def)
  moreover have "expand_dependencies 1000 loop_then_ghost [''a''] = Inl RecursionError"
    by (simp add: expand_dependencies_def loop_then_ghost_rec del: add_tier.simps)
  ultimately show ?thesis by blast
qed

text \<open>
  Claim C6, amended. When the request reaches a name that is missing from the tier map,
  no plan is produced for any depth budget: the expansion fails, with the `not defined'
  exit for an undefined reachable tier or with \<open>RecursionError\<close>; \<^verbatim>\<open>main\<close> leaves with
  status 1 and has run no tier. When the map is finite and no reachable tier lies on a
  dependency cycle, the failure is the `not defined' exit for every large enough budget.
\<close>

theorem undefined_tier_fails:
  assumes "t \<in> reach tt requested" and "tt t = None"
    and "test_tiers cfg = tt" and "combinations cfg combo = Some (Some requested)"
  shows "(\<exists>e. expand_dependencies n tt requested = Inl e \<and>
            (e = RecursionError \<or>
             (\<exists>u. e = SysExit (TierNotDefined u) \<and> u \<in> reach tt requested \<and> not_meta (tt u)))) \<and>
         trace (snd (main n cfg combo world)) = [] \<and>
         exit_status (main n cfg combo world) = 1 \<and>
         (finite (dom tt) \<and> (\<forall>x\<in>reach tt requested. (x, x) \<notin> (dep_edges tt)\<^sup>+) \<longrightarrow>
            (\<exists>N. \<forall>m\<ge>N. \<exists>u. expand_dependencies m tt requested =
                                 Inl (SysExit (TierNotDefined u))))"
proof -
  from assms(2) have nm: "not_meta (tt t)" by simp
  have noplan: "expand_dependencies k tt requested \<noteq> Inr plan" for k plan
    by (rule undefined_no_plan[OF assms(1) nm])
  then obtain e where e: "expand_dependencies n tt requested = Inl e"
    by (cases "expand_dependencies n tt requested") auto
  from main_expand_fail[of cfg combo requested n e world] e assms(3,4)
  have m: "main n cfg combo world = (Crashed e, initial_state)" by simp
  have "\<exists>N. \<forall>m\<ge>N. \<exists>u. expand_dependencies m tt requested = Inl (SysExit (TierNotDefined u))"
    if fin: "finite (dom tt)" and acyc: "\<forall>x\<in>reach tt requested. (x, x) \<notin> (dep_edges tt)\<^sup>+"
  proof -
    from acyclic_terminates[of tt requested] fin acyc obtain N r
      where r: "r \<noteq> Inl RecursionError" "\<forall>m\<ge>N. expand_dependencies m tt requested = r"
      by blast
    from r(2) have rn: "expand_dependencies N tt requested = r" by simp
    with noplan[of N] obtain e' where e': "r = Inl e'" by (cases r) auto
    with expand_fail[of N tt requested e'] rn r(1)
    obtain u where "r = Inl (SysExit (TierNotDefined u))" by auto
    with r(2) show ?thesis by blast
  qed
  with e expand_fail[OF e] m show ?thesis by (simp add: initial_state_def)
qed

theorem undefined_tier_fails_witness:
  "''ghost'' \<in> reach diamond [''a'', ''ghost''] \<and> diamond ''ghost'' = None \<and>
   finite (dom diamond) \<and>
   (\<exists>e. expand_dependencies 3 diamond [''a'', ''ghost''] = Inl e) \<and>
   trace (snd (main 3 \<lparr>test_tiers = diamond,
                        combinations = [''smoke'' \<mapsto> Some [''a'', ''ghost'']]\<rparr>
                  ''smoke'' (\<lambda>h cmd. Exited 0))) = [] \<and>
   exit_status (main 3 \<lparr>test_tiers = diamond,
                        combinations = [''smoke'' \<mapsto> Some [''a'', ''ghost'']]\<rparr>
                  ''smoke'' (\<lambda>h cmd. Exited 0)) = 1 \<and>
   (\<exists>N. \<forall>m\<ge>N. \<exists>u. expand_dependencies m diamond [''a'', ''ghost''] =
                        Inl (SysExit (TierNotDefined u)))"
proof -
  have h: "''ghost'' \<in> reach diamond [''a'', ''ghost'']" "diamond ''ghost'' = None"
    by (auto simp: reach_def diamond_def)
  have a: "\<forall>x\<in>reach diamond [''a'', ''ghost'']. (x, x) \<notin> (dep_edges diamond)\<^sup>+"
    by (simp add: diamond_acyclic)
  from undefined_tier_fails[OF h, where n = 3 and combo = "''smoke''"
      and cfg = "\<lparr>test_tiers = diamond,
                  combinations = [''smoke'' \<mapsto> Some [''a'', ''ghost'']]\<rparr>"
      and world = "\<lambda>h cmd. Exited 0"] h a diamond_finite
  show ?thesis by (simp del: exit_status.simps) blast
qed

text \<open>
  Claim C8, as stated, at a concrete input: \<open>a\<close> depends on itself, so a cycle is
  reachable from the request, but the missing tier listed before it ends the run with
  the `not defined' exit.
\<close>

theorem cycle_counterexample:
  "''a'' \<in> reach ghost_then_loop [''a''] \<and>
   (''a'', ''a'') \<in> (dep_edges ghost_then_loop)\<^sup>+ \<and>
   expand_dependencies 1000 ghost_then_loop [''a''] = Inl (SysExit (TierNotDefined ''ghost''))"
proof -
  have "(''a'', ''a'') \<in> dep_edges ghost_then_loop"
    by (simp add: dep_edges_def deps_of_def ghost_then_loop_def tier_with_def get_depends_on_def)
  then have "(''a'', ''a'') \<in> (dep_edges ghost_then_loop)\<^sup>+" by (rule r_into_trancl)
  moreover have "''a'' \<in> reach ghost_then_loop [''a'']" by (simp add: reach_def)
  moreover have "(1000::nat) = Suc (Suc 998)" by simp
  then have "expand_dependencies 1000 ghost_then_loop [''a''] =
      Inl (SysExit (TierNotDefined ''ghost''))"
    by (simp only: ghost_then_loop_exit)
  ultimately show ?thesis by blast
qed

text \<open>
  Claim C8, amended. For a finite tier map in which no tier reachable from the request
  lies on a dependency cycle, the expansion terminates: every large enough depth budget
  gives the same result, and it is not \<open>RecursionError\<close>. When a reachable tier lies on
  a cycle, no budget yields a plan; if in addition every reachable tier is defined,
  every budget ends in \<open>RecursionError\<close>.
\<close>

theorem expand_dependencies_cycles:
  "(finite (dom tt) \<and> (\<forall>y\<in>reach tt requested. (y, y) \<notin> (dep_edges tt)\<^sup>+) \<longrightarrow>
      (\<exists>N r. r \<noteq> Inl RecursionError \<and> (\<forall>n\<ge>N. expand_dependencies n tt requested = r))) \<and>
   (x \<in> reach tt requested \<and> (x, x) \<in> (dep_edges tt)\<^sup>+ \<longrightarrow>
      (\<forall>n plan. expand_dependencies n tt requested \<noteq> Inr plan) \<and>
      ((\<forall>y\<in>reach tt requested. \<not> not_meta (tt y)) \<longrightarrow>
         (\<forall>n. expand_dependencies n tt requested = Inl RecursionError)))"
proof (intro conjI impI)
  assume "finite (dom tt) \<and> (\<forall>y\<in>reach tt requested. (y, y) \<notin> (dep_edges tt)\<^sup>+)"
  then show "\<exists>N r. r \<noteq> Inl RecursionError \<and> (\<forall>n\<ge>N. expand_dependencies n tt requested = r)"
    using acyclic_terminates[of tt requested] by blast
next
  assume c: "x \<in> reach tt requested \<and> (x, x) \<in> (dep_edges tt)\<^sup>+"
  then show np: "\<forall>n plan. expand_dependencies n tt requested \<noteq> Inr plan"
    using cycle_no_plan[of x tt requested] by blast
  assume d: "\<forall>y\<in>reach tt requested. \<not> not_meta (tt y)"
  show "\<forall>n. expand_dependencies n tt requested = Inl RecursionError"
  proof
    fix n
    from np obtain e where e: "expand_dependencies n tt requested = Inl e"
      by (cases "expand_dependencies n tt requested") auto
    from expand_fail[OF e] d have "e = RecursionError" by blast
    with e show "expand_dependencies n tt requested = Inl RecursionError" by simp
  qed
qed

theorem expand_dependencies_cycles_witness:
  "finite (dom diamond) \<and>
   (\<exists>N r. r \<noteq> Inl RecursionError \<and>
      (\<forall>n\<ge>N. expand_dependencies n diamond [''a'', ''b''] = r)) \<and>
   ''a'' \<in> reach two_cycle [''a''] \<and> (''a'', ''a'') \<in> (dep_edges two_cycle)\<^sup>+ \<and>
   (\<forall>n. expand_dependencies n two_cycle [''a''] = Inl RecursionError)"
proof -
  have a: "\<forall>y\<in>reach diamond [''a'', ''b'']. (y, y) \<notin> (dep_edges diamond)\<^sup>+"
    by (simp add: diamond_acyclic)
  have r: "''a'' \<in> reach two_cycle [''a'']" by (simp add: reach_def)
  have c: "(''a'', ''a'') \<in> (dep_edges two_cycle)\<^sup>+"
    using two_cycle_edges by (rule trancl_into_trancl[OF r_into_trancl])
  have d: "\<forall>y\<in>reach two_cycle [''a'']. \<not> not_meta (two_cycle y)"
    using two_cycle_reach
    by (auto simp: two_cycle_def tier_with_def dict_empty_def)
  from expand_dependencies_cycles[of diamond "[''a'', ''b'']" "''a''"] a diamond_finite
  have 1: "\<exists>N r. r \<noteq> Inl RecursionError \<and>
      (\<forall>n\<ge>N. expand_dependencies n diamond [''a'', ''b''] = r)" by blast
  from expand_dependencies_cycles[of two_cycle "[''a'']" "''a''"] r c d
  have 2: "\<forall>n. expand_dependencies n two_cycle [''a''] = Inl RecursionError" by blast
  from 1 2 r c diamond_finite show ?thesis by blast
qed

section \<open>Properties of the executor\<close>

lemma history_append: "history (xs @ ys) = history xs @ history ys"
  by (induction xs rule: history.induct) simp_all

lemma run_tier_value:
  "run_tier name c world h = (r, Inr ok) \<Longrightarrow> ok = tier_ok r \<and> (\<exists>cmd oc. r = Invoked cmd oc)"
  by (auto simp: run_tier_def split: sum.splits outcome.splits)

lemma run_tier_raises: "run_tier name c world h = (r, Inl e) \<Longrightarrow> \<not> tier_ok r"
  by (auto simp: run_tier_def split: sum.splits outcome.splits)

lemma loop_append:
  "tier_loop tt world (xs @ ys) st =
     (case tier_loop tt world xs st of
        (Completed, st1) \<Rightarrow> tier_loop tt world ys st1
      | (Stopped, st1) \<Rightarrow> (Stopped, st1)
      | (Crashed e, st1) \<Rightarrow> (Crashed e, st1))"
proof (induction xs arbitrary: st)
  case Nil
  then show ?case by simp
next
  case (Cons x xs)
  show ?case
    by (simp add: Cons.IH split: sum.splits tier_value.splits prod.splits)
qed


lemma loop_exit:
  "tier_loop tt world plan st0 = (res, st) \<Longrightarrow>
   \<exists>new. trace st = trace st0 @ new \<and>
     (exit_status (res, st) = 0 \<longleftrightarrow> overall_ok st0 \<and> list_all (\<lambda>e. tier_ok (snd e)) new)"
proof (induction plan arbitrary: st0)
  case Nil
  then show ?case by auto
next
  case (Cons x xs)
  show ?case
  proof (cases "lookup_tier tt x")
    case (Inl e)
    with Cons.prems show ?thesis by (auto simp: record_result_def)
  next
    case (Inr v)
    show ?thesis
    proof (cases v)
      case TNull
      with Inr Cons.prems show ?thesis by (auto simp: record_result_def)
    next
      case (TDict c)
      show ?thesis
      proof (cases "get_default_enabled c")
        case False
        with Inr TDict Cons.prems
        have "tier_loop tt world xs (record_result st0 x Skip) = (res, st)" by simp
        from Cons.IH[OF this] show ?thesis by (auto simp: record_result_def)
      next
        case True
        obtain r v' where rt: "run_tier x c world (history (trace st0)) = (r, v')"
          by (cases "run_tier x c world (history (trace st0))")
        show ?thesis
        proof (cases v')
          case (Inl e)
          with rt Inr TDict True Cons.prems run_tier_raises[of x c world _ r e]
          show ?thesis by (auto simp: record_result_def)
        next
          case (Inr ok)
          with rt run_tier_value[of x c world _ r ok] have ok: "ok = tier_ok r" by simp
          show ?thesis
          proof (cases ok)
            case True
            with rt Inr \<open>lookup_tier tt x = Inr v\<close> TDict \<open>get_default_enabled c\<close> Cons.prems
            have "tier_loop tt world xs (record_result st0 x r) = (res, st)" by simp
            from Cons.IH[OF this] True ok show ?thesis by (auto simp: record_result_def)
          next
            case False
            show ?thesis
            proof (cases "get_critical c")
              case True
              with False rt Inr \<open>lookup_tier tt x = Inr v\<close> TDict \<open>get_default_enabled c\<close>
                Cons.prems ok
              show ?thesis by (auto simp: record_result_def)
            next
              case nc: False
              with False rt Inr \<open>lookup_tier tt x = Inr v\<close> TDict \<open>get_default_enabled c\<close>
                Cons.prems
              have "tier_loop tt world xs ((record_result st0 x r)\<lparr>overall_ok := False\<rparr>) = (res, st)"
                by simp
              from Cons.IH[OF this] False ok show ?thesis by (auto simp: record_result_def)
            qed
          qed
        qed
      qed
    qed
  qed
qed

lemma loop_cong:
  "overall_ok s = overall_ok s' \<Longrightarrow> history (trace s) = history (trace s') \<Longrightarrow>
   same_aggregate (tier_loop tt world plan s) (tier_loop tt world plan s')"
proof (induction plan arbitrary: s s')
  case Nil
  then show ?case by (simp add: same_aggregate_def)
next
  case (Cons x xs)
  have ih1: "same_aggregate (tier_loop tt world xs (record_result s x r))
               (tier_loop tt world xs (record_result s' x r))" for r
    by (rule Cons.IH) (simp_all add: record_result_def history_append Cons.prems)
  have ih2: "same_aggregate (tier_loop tt world xs ((record_result s x r)\<lparr>overall_ok := False\<rparr>))
               (tier_loop tt world xs ((record_result s' x r)\<lparr>overall_ok := False\<rparr>))" for r
    by (rule Cons.IH) (simp_all add: record_result_def history_append Cons.prems)
  have base: "same_aggregate (st, record_result s x r) (st, record_result s' x r)"
    "same_aggregate (st, (record_result s x r)\<lparr>overall_ok := False\<rparr>)
       (st, (record_result s' x r)\<lparr>overall_ok := False\<rparr>)" for st r
    by (simp_all add: same_aggregate_def record_result_def history_append Cons.prems)
  show ?case
    by (simp add: Cons.prems ih1 ih2 base split: sum.splits tier_value.splits prod.splits)
qed

lemma run_tier_not_Skip: "run_tier name c world h = (r, v) \<Longrightarrow> r \<noteq> Skip"
  by (auto simp: run_tier_def split: sum.splits outcome.splits)

lemma loop_Cons_cases:
  assumes "tier_loop tt world (x # xs) st0 = (res, st)"
  shows "(\<exists>r st1. trace st1 = trace st0 @ [(x, r)] \<and> tier_loop tt world xs st1 = (res, st) \<and>
            (\<exists>c. tt x = Some (TDict c) \<and> (r = Skip \<longleftrightarrow> \<not> get_default_enabled c))) \<or>
         (\<exists>r. res \<noteq> Completed \<and> trace st = trace st0 @ [(x, r)] \<and> r \<noteq> Skip \<and>
            (\<forall>c. tt x = Some (TDict c) \<longrightarrow> get_default_enabled c))"
proof (cases "tt x")
  case None
  with assms show ?thesis by (auto simp: lookup_tier_def record_result_def)
next
  case (Some v)
  show ?thesis
  proof (cases v)
    case TNull
    with Some assms show ?thesis by (auto simp: lookup_tier_def record_result_def)
  next
    case (TDict c)
    with Some have l: "lookup_tier tt x = Inr (TDict c)" by (simp add: lookup_tier_def)
    show ?thesis
    proof (cases "get_default_enabled c")
      case False
      with l assms have "tier_loop tt world xs (record_result st0 x Skip) = (res, st)" by simp
      with False Some TDict show ?thesis
        by (intro disjI1 exI[of _ Skip] exI[of _ "record_result st0 x Skip"])
          (simp add: record_result_def)
    next
      case True
      obtain r v' where rt: "run_tier x c world (history (trace st0)) = (r, v')"
        by (cases "run_tier x c world (history (trace st0))")
      from run_tier_not_Skip[OF rt] have ns: "r \<noteq> Skip" .
      show ?thesis
      proof (cases "\<exists>e. v' = Inl e \<or> (v' = Inr False \<and> get_critical c)")
        case True
        with rt l \<open>get_default_enabled c\<close> assms
        have "res \<noteq> Completed" "trace st = trace st0 @ [(x, r)]"
          by (auto simp: record_result_def)
        with ns Some TDict \<open>get_default_enabled c\<close> show ?thesis by auto
      next
        case False
        then obtain ok where ok: "v' = Inr ok" "ok \<or> \<not> get_critical c"
          by (cases v') auto
        define st1 where "st1 = (if ok then record_result st0 x r
                                 else (record_result st0 x r)\<lparr>overall_ok := False\<rparr>)"
        from ok rt l \<open>get_default_enabled c\<close> assms
        have "tier_loop tt world xs st1 = (res, st)" by (auto simp: st1_def)
        moreover have "trace st1 = trace st0 @ [(x, r)]" by (simp add: st1_def record_result_def)
        ultimately show ?thesis using ns Some TDict \<open>get_default_enabled c\<close>
          by (intro disjI1 exI[of _ r] exI[of _ st1]) simp
      qed
    qed
  qed
qed

lemma loop_names:
  "tier_loop tt world plan st0 = (res, st) \<Longrightarrow>
   \<exists>k\<le>length plan. map fst (trace st) = map fst (trace st0) @ take k plan \<and>
      (res = Completed \<longrightarrow> k = length plan)"
proof (induction plan arbitrary: st0)
  case Nil
  then show ?case by auto
next
  case (Cons x xs)
  from loop_Cons_cases[OF Cons.prems] show ?case
  proof (elim disjE exE conjE)
    fix r st1 c
    assume t: "trace st1 = trace st0 @ [(x, r)]" and l: "tier_loop tt world xs st1 = (res, st)"
    from Cons.IH[OF l] obtain k where k: "k \<le> length xs"
      "map fst (trace st) = map fst (trace st1) @ take k xs" "res = Completed \<longrightarrow> k = length xs"
      by blast
    with t have "map fst (trace st) = map fst (trace st0) @ take (Suc k) (x # xs)" by simp
    with k(1,3) show ?thesis by (intro exI[of _ "Suc k"]) simp
  next
    fix r
    assume "res \<noteq> Completed" "trace st = trace st0 @ [(x, r)]"
    then show ?thesis by (intro exI[of _ "Suc 0"]) simp
  qed
qed

lemma loop_skip_only:
  assumes "tt t = Some (TDict c)" "\<not> get_default_enabled c"
  shows "tier_loop tt world plan st0 = (res, st) \<Longrightarrow>
   \<exists>new. trace st = trace st0 @ new \<and> (\<forall>r. (t, r) \<in> set new \<longrightarrow> r = Skip)"
proof (induction plan arbitrary: st0)
  case Nil
  then show ?case by auto
next
  case (Cons x xs)
  from loop_Cons_cases[OF Cons.prems] show ?case
  proof (elim disjE exE conjE)
    fix r st1 c'
    assume t: "trace st1 = trace st0 @ [(x, r)]" and l: "tier_loop tt world xs st1 = (res, st)"
      and c': "tt x = Some (TDict c')" "(r = Skip) = (\<not> get_default_enabled c')"
    from Cons.IH[OF l] obtain new where
      n: "trace st = trace st1 @ new" "\<forall>r. (t, r) \<in> set new \<longrightarrow> r = Skip" by blast
    from c' assms have "x = t \<longrightarrow> r = Skip" by auto
    with n t show ?thesis by (intro exI[of _ "(x, r) # new"]) auto
  next
    fix r
    assume h: "trace st = trace st0 @ [(x, r)]" "\<forall>c. tt x = Some (TDict c) \<longrightarrow> get_default_enabled c"
    with assms have "x \<noteq> t" by auto
    with h(1) show ?thesis by (intro exI[of _ "[(x, r)]"]) auto
  qed
qed

lemmas run_defs = run_tier_def build_pytest_cmd_def sys_executable_def lookup_tier_def
  record_result_def get_default_enabled_def get_critical_def initial_state_def

lemma diamond_run_pass:
  "tier_loop diamond all_pass [''c'', ''a'', ''b''] initial_state =
     (Completed, \<lparr>overall_ok = True, trace =
        [(''c'', Invoked [''python'', ''-m'', ''pytest'', ''tests''] (Exited 0)),
         (''a'', Invoked [''python'', ''-m'', ''pytest'', ''tests''] (Exited 0)),
         (''b'', Invoked [''python'', ''-m'', ''pytest'', ''tests''] (Exited 0))]\<rparr>)"
  by (simp add: run_defs diamond_def tier_with_def all_pass_def)

lemma diamond_run_fail:
  "tier_loop diamond fail_second [''c'', ''a'', ''b''] initial_state =
     (Completed, \<lparr>overall_ok = False, trace =
        [(''c'', Invoked [''python'', ''-m'', ''pytest'', ''tests''] (Exited 0)),
         (''a'', Invoked [''python'', ''-m'', ''pytest'', ''tests''] (Exited 1)),
         (''b'', Invoked [''python'', ''-m'', ''pytest'', ''tests''] (Exited 0))]\<rparr>)"
  by (simp add: run_defs diamond_def tier_with_def fail_second_def)

lemma loop_single_names:
  "tier_loop tt world [a] st0 = (res, st1) \<Longrightarrow> map fst (trace st1) = map fst (trace st0) @ [a]"
  using loop_Cons_cases[of tt world a "[]" st0 res st1] by auto

lemma loop_after_first:
  "tier_loop tt world [a] st0 = (Completed, st1) \<Longrightarrow>
   tier_loop tt world (a # rest) st0 = tier_loop tt world rest st1"
  using loop_append[of tt world "[a]" rest st0] by simp


lemma same_aggregate_exit: "same_aggregate p q \<Longrightarrow> exit_status p = exit_status q"
  by (cases p; cases q; cases "fst p") (auto simp: same_aggregate_def)

lemma same_aggregate_refl: "same_aggregate p p"
  by (simp add: same_aggregate_def)

text \<open>
  Claim C2. Once the combination is resolved and the plan expanded, the process leaves
  with status 0 if every tier of the trace that was not skipped had its invocation
  leave with return code 0, and with status 1 otherwise. \<^verbatim>\<open>run_tier\<close> returns \<open>True\<close>
  exactly when the invocation left with return code 0; an interrupt gives \<open>False\<close> and
  a child that cannot be started raises.
\<close>

theorem exit_status_iff:
  assumes "collect_tiers_for_combo cfg combo = Inr requested"
    and "expand_dependencies n (test_tiers cfg) requested = Inr plan"
  shows "exit_status (main n cfg combo world) =
           (if list_all (\<lambda>e. tier_ok (snd e)) (trace (snd (main n cfg combo world)))
            then 0 else 1) \<and>
         (run_tier name c world h = (r, v) \<longrightarrow>
            (v = Inr True \<longleftrightarrow> (\<exists>cmd. r = Invoked cmd (Exited 0))))"
proof
  obtain res st where l: "tier_loop (test_tiers cfg) world plan initial_state = (res, st)"
    by (cases "tier_loop (test_tiers cfg) world plan initial_state")
  with assms have m: "main n cfg combo world = (res, st)" by (simp add: main_def)
  from loop_exit[OF l] have
    "exit_status (res, st) = 0 \<longleftrightarrow> list_all (\<lambda>e. tier_ok (snd e)) (trace st)"
    by (auto simp: initial_state_def)
  moreover have "exit_status (res, st) = 0 \<or> exit_status (res, st) = 1"
    by (cases res) simp_all
  ultimately show "exit_status (main n cfg combo world) =
      (if list_all (\<lambda>e. tier_ok (snd e)) (trace (snd (main n cfg combo world))) then 0 else 1)"
    unfolding m by auto
  show "run_tier name c world h = (r, v) \<longrightarrow>
      (v = Inr True \<longleftrightarrow> (\<exists>cmd. r = Invoked cmd (Exited 0)))"
    by (auto simp: run_tier_def split: sum.splits outcome.splits)
qed

theorem exit_status_iff_witness:
  "collect_tiers_for_combo
     \<lparr>test_tiers = diamond, combinations = [''std'' \<mapsto> Some [''a'', ''b'']]\<rparr> ''std'' =
     Inr [''a'', ''b''] \<and>
   expand_dependencies 3 diamond [''a'', ''b''] = Inr [''c'', ''a'', ''b''] \<and>
   exit_status (main 3 \<lparr>test_tiers = diamond, combinations = [''std'' \<mapsto> Some [''a'', ''b'']]\<rparr>
                  ''std'' all_pass) = 0 \<and>
   exit_status (main 3 \<lparr>test_tiers = diamond, combinations = [''std'' \<mapsto> Some [''a'', ''b'']]\<rparr>
                  ''std'' fail_second) = 1"
proof -
  let ?cfg = "\<lparr>test_tiers = diamond, combinations = [''std'' \<mapsto> Some [''a'', ''b'']]\<rparr>"
  have c: "collect_tiers_for_combo ?cfg ''std'' = Inr [''a'', ''b'']"
    by (simp add: collect_tiers_for_combo_def)
  have e: "expand_dependencies 3 (test_tiers ?cfg) [''a'', ''b''] = Inr [''c'', ''a'', ''b'']"
    using diamond_eval by simp
  have m1: "main 3 ?cfg ''std'' all_pass = tier_loop diamond all_pass [''c'', ''a'', ''b''] initial_state"
    using c diamond_eval by (simp add: main_def)
  have m2: "main 3 ?cfg ''std'' fail_second =
      tier_loop diamond fail_second [''c'', ''a'', ''b''] initial_state"
    using c diamond_eval by (simp add: main_def)
  from exit_status_iff[OF c e, of all_pass] have "exit_status (main 3 ?cfg ''std'' all_pass) = 0"
    unfolding m1 diamond_run_pass by simp
  moreover from exit_status_iff[OF c e, of fail_second]
  have "exit_status (main 3 ?cfg ''std'' fail_second) = 1"
    unfolding m2 diamond_run_fail by simp
  ultimately show ?thesis using c diamond_eval by blast
qed

text \<open>
  Claim C3. In the plan \<open>[a, b, c]\<close>, when the loop reaches \<open>b\<close>, \<open>b\<close> is enabled and
  critical and its invocation leaves with a nonzero return code, the loop stops there:
  the tiers processed are \<open>a\<close> and \<open>b\<close>, the last invocation is the one of \<open>b\<close>, and
  the process leaves with status 1.
\<close>

theorem critical_failure_stops:
  assumes "tier_loop tt world [a] initial_state = (Completed, st1)"
    and "tt b = Some (TDict cb)" and "get_default_enabled cb" and "get_critical cb"
    and "build_pytest_cmd b cb = Inr cmd"
    and "world (history (trace st1)) cmd = Exited rc" and "rc \<noteq> 0"
  shows "tier_loop tt world [a, b, c] initial_state =
           (Stopped, (record_result st1 b (Invoked cmd (Exited rc)))\<lparr>overall_ok := False\<rparr>) \<and>
         map fst (trace (snd (tier_loop tt world [a, b, c] initial_state))) = [a, b] \<and>
         history (trace (snd (tier_loop tt world [a, b, c] initial_state))) =
           history (trace st1) @ [(cmd, Exited rc)] \<and>
         exit_status (tier_loop tt world [a, b, c] initial_state) = 1"
proof -
  have "tier_loop tt world [b, c] st1 =
      (Stopped, (record_result st1 b (Invoked cmd (Exited rc)))\<lparr>overall_ok := False\<rparr>)"
    using assms(2-7) by (simp add: lookup_tier_def run_tier_def)
  with loop_after_first[OF assms(1), of "[b, c]"]
  have l: "tier_loop tt world [a, b, c] initial_state =
      (Stopped, (record_result st1 b (Invoked cmd (Exited rc)))\<lparr>overall_ok := False\<rparr>)"
    by simp
  from loop_single_names[OF assms(1)] have "map fst (trace st1) = [a]"
    by (simp add: initial_state_def)
  with l show ?thesis by (simp add: record_result_def history_append)
qed

theorem critical_failure_stops_witness:
  "tier_loop (pipeline (tier_flags None (Some True)) (tier_flags None None)) fail_second
     [''a''] initial_state =
     (Completed, \<lparr>overall_ok = True, trace =
        [(''a'', Invoked [''python'', ''-m'', ''pytest'', ''tests''] (Exited 0))]\<rparr>) \<and>
   get_critical \<lparr>depends_on = None, discovery = Some \<lparr>paths = None, markers_any = None\<rparr>,
                  default_enabled = None, critical = Some True, other_keys = []\<rparr> \<and>
   tier_loop (pipeline (tier_flags None (Some True)) (tier_flags None None)) fail_second
     [''a'', ''b'', ''c''] initial_state =
     (Stopped, \<lparr>overall_ok = False, trace =
        [(''a'', Invoked [''python'', ''-m'', ''pytest'', ''tests''] (Exited 0)),
         (''b'', Invoked [''python'', ''-m'', ''pytest'', ''tests''] (Exited 1))]\<rparr>) \<and>
   exit_status (tier_loop (pipeline (tier_flags None (Some True)) (tier_flags None None))
     fail_second [''a'', ''b'', ''c''] initial_state) = 1"
proof -
  let ?tt = "pipeline (tier_flags None (Some True)) (tier_flags None None)"
  let ?cb = "\<lparr>depends_on = None, discovery = Some \<lparr>paths = None, markers_any = None\<rparr>,
              default_enabled = None, critical = Some True, other_keys = []\<rparr>"
  let ?st1 = "\<lparr>overall_ok = True, trace =
        [(''a'', Invoked [''python'', ''-m'', ''pytest'', ''tests''] (Exited 0))]\<rparr>"
  let ?cmd = "[''python'', ''-m'', ''pytest'', ''tests'']"
  have 1: "tier_loop ?tt fail_second [''a''] initial_state = (Completed, ?st1)"
    by (simp add: run_defs pipeline_def tier_flags_def fail_second_def)
  have 2: "?tt ''b'' = Some (TDict ?cb)" by (simp add: pipeline_def tier_flags_def)
  have 3: "get_default_enabled ?cb" "get_critical ?cb"
    by (simp_all add: get_default_enabled_def get_critical_def)
  have 4: "build_pytest_cmd ''b'' ?cb = Inr ?cmd"
    by (simp add: build_pytest_cmd_def sys_executable_def)
  have 5: "fail_second (history (trace ?st1)) ?cmd = Exited 1" "(1::int) \<noteq> 0"
    by (simp_all add: fail_second_def)
  from critical_failure_stops[OF 1 2 3 4 5, of "''c''"] 1 3
  show ?thesis by (simp add: record_result_def)
qed




text \<open>
  Claim C5. A tier of the plan whose \<^verbatim>\<open>default_enabled\<close> is false is passed over: the
  loop continues with the rest of the plan with only the skip recorded, every entry of
  the trace for that tier is a skip, and the run agrees with the run of the plan without
  that tier on how the loop ended, on the flag, on the invocations made and on the exit
  status.
\<close>

theorem disabled_tier_skipped:
  assumes "tt t = Some (TDict c)" and "default_enabled c = Some False"
  shows "tier_loop tt world (t # rest) st = tier_loop tt world rest (record_result st t Skip) \<and>
         (\<forall>res st'. tier_loop tt world plan initial_state = (res, st') \<longrightarrow>
            (\<forall>r. (t, r) \<in> set (trace st') \<longrightarrow> r = Skip)) \<and>
         same_aggregate (tier_loop tt world (pre @ t # post) s)
           (tier_loop tt world (pre @ post) s) \<and>
         exit_status (tier_loop tt world (pre @ t # post) s) =
           exit_status (tier_loop tt world (pre @ post) s)"
proof -
  from assms(2) have d: "\<not> get_default_enabled c" by (simp add: get_default_enabled_def)
  have step: "tier_loop tt world (t # ys) s' = tier_loop tt world ys (record_result s' t Skip)"
    for ys s'
    using assms(1) d by (simp add: lookup_tier_def)
  have only: "r = Skip" if "tier_loop tt world plan initial_state = (res, st')"
    "(t, r) \<in> set (trace st')" for res st' r
    using loop_skip_only[OF assms(1) d that(1)] that(2) by (auto simp: initial_state_def)
  have agg: "same_aggregate (tier_loop tt world (pre @ t # post) s)
      (tier_loop tt world (pre @ post) s)"
  proof (cases "tier_loop tt world pre s")
    case (Pair res s1)
    show ?thesis
    proof (cases res)
      case Completed
      have "same_aggregate (tier_loop tt world post (record_result s1 t Skip))
          (tier_loop tt world post s1)"
        by (rule loop_cong) (simp_all add: record_result_def history_append)
      with Pair Completed step show ?thesis by (simp add: loop_append)
    next
      case Stopped
      with Pair show ?thesis by (simp add: loop_append same_aggregate_refl)
    next
      case (Crashed e)
      with Pair show ?thesis by (simp add: loop_append same_aggregate_refl)
    qed
  qed
  from step only agg same_aggregate_exit[OF agg] show ?thesis by blast
qed

theorem disabled_tier_skipped_witness:
  "pipeline (tier_flags None None) (tier_flags (Some False) None) ''c'' =
     Some (TDict \<lparr>depends_on = None, discovery = Some \<lparr>paths = None, markers_any = None\<rparr>,
                   default_enabled = Some False, critical = None, other_keys = []\<rparr>) \<and>
   tier_loop (pipeline (tier_flags None None) (tier_flags (Some False) None)) all_pass
     [''a'', ''b'', ''c''] initial_state =
     (Completed, \<lparr>overall_ok = True, trace =
        [(''a'', Invoked [''python'', ''-m'', ''pytest'', ''tests''] (Exited 0)),
         (''b'', Invoked [''python'', ''-m'', ''pytest'', ''tests''] (Exited 0)),
         (''c'', Skip)]\<rparr>) \<and>
   same_aggregate
     (tier_loop (pipeline (tier_flags None None) (tier_flags (Some False) None)) all_pass
        [''a'', ''b'', ''c''] initial_state)
     (tier_loop (pipeline (tier_flags None None) (tier_flags (Some False) None)) all_pass
        [''a'', ''b''] initial_state) \<and>
   exit_status
     (tier_loop (pipeline (tier_flags None None) (tier_flags (Some False) None)) all_pass
        [''a'', ''b'', ''c''] initial_state) =
   exit_status
     (tier_loop (pipeline (tier_flags None None) (tier_flags (Some False) None)) all_pass
        [''a'', ''b''] initial_state)"
proof -
  let ?tt = "pipeline (tier_flags None None) (tier_flags (Some False) None)"
  let ?cc = "\<lparr>depends_on = None, discovery = Some \<lparr>paths = None, markers_any = None\<rparr>,
              default_enabled = Some False, critical = None, other_keys = []\<rparr>"
  have 1: "?tt ''c'' = Some (TDict ?cc)" by (simp add: pipeline_def tier_flags_def)
  have 2: "default_enabled ?cc = Some False" by simp
  have 3: "tier_loop ?tt all_pass [''a'', ''b'', ''c''] initial_state =
     (Completed, \<lparr>overall_ok = True, trace =
        [(''a'', Invoked [''python'', ''-m'', ''pytest'', ''tests''] (Exited 0)),
         (''b'', Invoked [''python'', ''-m'', ''pytest'', ''tests''] (Exited 0)),
         (''c'', Skip)]\<rparr>)"
    by (simp add: run_defs pipeline_def tier_flags_def all_pass_def)
  from disabled_tier_skipped[where tt = "?tt" and t = "''c''" and c = "?cc"
      and pre = "[''a'', ''b'']" and post = "[]" and world = all_pass and s = initial_state,
      OF 1 2]
  have "same_aggregate (tier_loop ?tt all_pass [''a'', ''b'', ''c''] initial_state)
          (tier_loop ?tt all_pass [''a'', ''b''] initial_state)"
    and "exit_status (tier_loop ?tt all_pass [''a'', ''b'', ''c''] initial_state) =
          exit_status (tier_loop ?tt all_pass [''a'', ''b''] initial_state)"
    by simp_all
  with 1 3 show ?thesis by blast
qed

end
